theory Spec2Isabelle
  imports Main "HOL-Library.Word"
begin

section \<open>Platform types, constants and services\<close>

text \<open>
  The module is one C routine, \<open>find_max_init\<close>, working on two globals
  (\<open>input_array\<close>, \<open>num_elements\<close>). A C \<open>int\<close> holding array data is a
  32-bit word read as two's complement (\<open>sint\<close>). The counters \<open>i\<close>, \<open>count\<close>,
  \<open>offset\<close> and \<open>ret\<close> are kept as integers: in a run of \<open>find_max_init\<close> none of them
  leaves the range 0..256, so no wrap-around is involved. The conversion to \<open>size_t\<close>
  that the source applies to \<open>sizeof(buf) - offset\<close> and to \<open>ret\<close> is written out.
\<close>

type_synonym c_int = "32 word"

definition MAX_ARRAY_SIZE :: int where
  "MAX_ARRAY_SIZE = 16"

text \<open>
  Modelled from the spec: the seed of the running maximum, "the minimum representable
  signed 32-bit value"; the header \<open>linux/limits.h\<close> that defines \<open>INT_MIN\<close> is not part
  of the sources.
\<close>

definition INT_MIN :: c_int where
  "INT_MIN = - 2147483648"

text \<open>
  Modelled from the spec: the "InvalidArgument-equivalent" error code; the kernel header
  that defines \<open>EINVAL\<close> (as 22) is not part of the sources.
\<close>

definition EINVAL :: int where
  "EINVAL = 22"

text \<open>\<open>sizeof(array_str)\<close> and \<open>sizeof(indices_str)\<close>: both buffers are \<open>char[256]\<close>.\<close>

definition BUF_SIZE :: int where
  "BUF_SIZE = 256"

text \<open>Conversion of an integer to the 64-bit unsigned \<open>size_t\<close>.\<close>

definition size_t :: "int \<Rightarrow> int" where
  "size_t x = x mod 2 ^ 64"

datatype level = KERN_INFO | KERN_WARNING | KERN_ERR

type_synonym klog = "(level \<times> string) list"

definition NL :: string where
  "NL = [CHR 0x0A]"

subsection \<open>The conversion \<open>%d\<close>\<close>

definition digit_char :: "nat \<Rightarrow> char" where
  "digit_char d = ''0123456789'' ! d"

fun digits10 :: "nat \<Rightarrow> string" where
  "digits10 n = (if n < 10 then [digit_char n] else digits10 (n div 10) @ [digit_char (n mod 10)])"

definition fmt_d :: "int \<Rightarrow> string" where
  "fmt_d x = (if x < 0 then CHR ''-'' # digits10 (nat (- x)) else digits10 (nat x))"

subsection \<open>A 256-byte text buffer and \<open>snprintf\<close>\<close>

text \<open>
  \<open>chars\<close> is the NUL-terminated text the buffer holds, \<open>offset\<close> the source's variable
  of that name, \<open>overrun\<close> records whether any call stored a byte at an index outside
  0..255, and \<open>logged\<close> collects the lines the block prints with \<open>printk\<close>.
\<close>

record render_state =
  chars :: string
  offset :: int
  overrun :: bool
  logged :: klog

text \<open>
  \<open>snprintf(buf + offset, sz, ...)\<close> with the formatted text \<open>txt\<close>: nothing is stored
  when \<open>sz\<close> is 0; otherwise the first \<open>sz - 1\<close> characters of \<open>txt\<close> are stored from
  index \<open>offset\<close> on, followed by a NUL. The value returned is the length of \<open>txt\<close>,
  whether or not it was cut.
\<close>

definition snprintf_at :: "render_state \<Rightarrow> int \<Rightarrow> string \<Rightarrow> render_state \<times> int" where
  "snprintf_at st sz txt =
     (if sz = 0 then (st, int (length txt))
      else (st\<lparr>chars := take (nat (offset st)) (chars st) @ take (nat (sz - 1)) txt,
               overrun := (overrun st \<or> offset st < 0
                           \<or> BUF_SIZE \<le> offset st + min (int (length txt)) (sz - 1))\<rparr>,
            int (length txt)))"

section \<open>The rendering blocks\<close>

text \<open>
  The two rendering blocks of \<open>find_max_init\<close> (the array, source lines 37 to 54, and
  the indices, lines 77 to 92) are the same code up to the header text, the warning text
  and the array that is printed. \<open>get i\<close> is the value printed at iteration \<open>i\<close>
  (\<open>input_array[i]\<close>, respectively \<open>max_indices[i]\<close>).
\<close>

definition truncation_warning :: "string \<Rightarrow> level \<times> string" where
  "truncation_warning warn = (KERN_WARNING, warn @ NL)"

definition render_item :: "(int \<Rightarrow> int) \<Rightarrow> int \<Rightarrow> int \<Rightarrow> string" where
  "render_item get n i = fmt_d (get i) @ (if i = n - 1 then [] else '', '')"

function render_loop ::
  "string \<Rightarrow> (int \<Rightarrow> int) \<Rightarrow> int \<Rightarrow> int \<Rightarrow> render_state \<Rightarrow> render_state" where
  "render_loop warn get n i st =
     (if i < n then
        (let sz = size_t (BUF_SIZE - offset st);
             r = snprintf_at st sz (render_item get n i);
             ret = snd r
         in if ret < 0 \<or> sz \<le> size_t ret
            then (fst r)\<lparr>logged := logged (fst r) @ [truncation_warning warn]\<rparr>
            else render_loop warn get n (i + 1) ((fst r)\<lparr>offset := offset (fst r) + ret\<rparr>))
      else st)"
  by pat_completeness auto
termination
  by (relation "measure (\<lambda>(warn, get, n, i, st). nat (n - i))") auto

definition render_block ::
  "string \<Rightarrow> string \<Rightarrow> (int \<Rightarrow> int) \<Rightarrow> int \<Rightarrow> render_state" where
  "render_block hdr warn get n =
     (let st0 = \<lparr>chars = [], offset = 0, overrun = False, logged = []\<rparr>;
          r = snprintf_at st0 (size_t (BUF_SIZE - offset st0)) hdr;
          st1 = (if snd r > 0 then (fst r)\<lparr>offset := offset (fst r) + snd r\<rparr> else fst r);
          st2 = render_loop warn get n 0 st1;
          st3 = fst (snprintf_at st2 (size_t (BUF_SIZE - offset st2)) '']'')
      in st3\<lparr>logged := logged st3 @ [(KERN_INFO, chars st3 @ NL)]\<rparr>)"

definition array_header :: "int \<Rightarrow> string" where
  "array_header n = ''Received '' @ fmt_d n @ '' element(s): [''"

definition array_warning :: string where
  "array_warning = ''Input array string truncated.''"

definition render_array :: "c_int list \<Rightarrow> int \<Rightarrow> render_state" where
  "render_array arr n =
     render_block (array_header n) array_warning (\<lambda>i. sint (arr ! nat i)) n"

definition indices_header :: string where
  "indices_header = ''Found at index/indices: [''"

definition indices_warning :: string where
  "indices_warning = ''Indices string truncated.''"

definition render_indices :: "int list \<Rightarrow> int \<Rightarrow> render_state" where
  "render_indices idxs cnt =
     render_block indices_header indices_warning (\<lambda>i. idxs ! nat i) cnt"

section \<open>The two scans\<close>

text \<open>First scan (source lines 56 to 60): the running maximum.\<close>

function scan_max :: "c_int list \<Rightarrow> int \<Rightarrow> int \<Rightarrow> c_int \<Rightarrow> c_int" where
  "scan_max arr n i max_val =
     (if i < n then
        scan_max arr n (i + 1)
          (if sint max_val < sint (arr ! nat i) then arr ! nat i else max_val)
      else max_val)"
  by pat_completeness auto
termination
  by (relation "measure (\<lambda>(arr, n, i, max_val). nat (n - i))") auto

text \<open>
  Second scan (source lines 63 to 74). \<open>max_indices\<close> holds the slots written so far,
  that is slots 0 to \<open>count - 1\<close> of the source's array; the slots from \<open>count\<close> on are
  uninitialised in the source and never read.
\<close>

record collect_state =
  max_indices :: "int list"
  count :: int
  overflow_log :: klog

definition storage_warning :: "level \<times> string" where
  "storage_warning =
     (KERN_WARNING, ''More occurrences of max value found than index storage allows (''
                    @ fmt_d MAX_ARRAY_SIZE @ '').'' @ NL)"

function collect_indices ::
  "c_int list \<Rightarrow> int \<Rightarrow> c_int \<Rightarrow> int \<Rightarrow> collect_state \<Rightarrow> collect_state" where
  "collect_indices arr n max_val i st =
     (if i < n then
        (if arr ! nat i = max_val then
           (if count st < MAX_ARRAY_SIZE
            then collect_indices arr n max_val (i + 1)
                   (st\<lparr>max_indices := max_indices st @ [i], count := count st + 1\<rparr>)
            else st\<lparr>overflow_log := overflow_log st @ [storage_warning]\<rparr>)
         else collect_indices arr n max_val (i + 1) st)
      else st)"
  by pat_completeness auto
termination
  by (relation "measure (\<lambda>(arr, n, max_val, i, st). nat (n - i))") auto

section \<open>The initialisation routine\<close>

definition hello :: "level \<times> string" where
  "hello = (KERN_INFO, ''Find Max Module: Initializing...'' @ NL)"

definition max_line :: "c_int \<Rightarrow> level \<times> string" where
  "max_line max_val = (KERN_INFO, ''Maximum value found: '' @ fmt_d (sint max_val) @ NL)"

definition no_index_warning :: "level \<times> string" where
  "no_index_warning =
     (KERN_WARNING,
      ''Could not find any index for the maximum value (this should not happen!).'' @ NL)"

record globals =
  input_array :: "c_int list"
  num_elements :: int

text \<open>
  What one run of \<open>find_max_init\<close> leaves behind: the value returned, the log lines in
  the order printed, the globals after the run, the locals \<open>max_val\<close>, \<open>max_indices\<close> and
  \<open>count\<close>, and for each of the two text buffers its final state when the block that
  owns it was executed.
\<close>

record init_result =
  ret_code :: int
  log_lines :: klog
  globals_after :: globals
  max_val_found :: c_int
  indices_found :: "int list"
  count_found :: int
  array_str :: "render_state option"
  indices_str :: "render_state option"

definition find_max_init :: "globals \<Rightarrow> init_result" where
  "find_max_init g =
     (let idle = \<lparr>ret_code = - EINVAL, log_lines = [hello], globals_after = g,
                  max_val_found = INT_MIN, indices_found = [], count_found = 0,
                  array_str = None, indices_str = None\<rparr>
      in if num_elements g \<le> 0 then
           idle\<lparr>log_lines := [hello] @ [(KERN_ERR,
             ''No elements provided in input_array. Please provide data like: input_array=1,2,3''
             @ NL)]\<rparr>
         else if num_elements g > MAX_ARRAY_SIZE then
           idle\<lparr>log_lines := [hello] @ [(KERN_ERR,
             ''Number of elements ('' @ fmt_d (num_elements g)
             @ '') exceeds maximum allowed size ('' @ fmt_d MAX_ARRAY_SIZE @ '').'' @ NL)]\<rparr>
         else
           (let ra = render_array (input_array g) (num_elements g);
                max_val = scan_max (input_array g) (num_elements g) 0 INT_MIN;
                c = collect_indices (input_array g) (num_elements g) max_val 0
                      \<lparr>max_indices = [], count = 0, overflow_log = []\<rparr>;
                ri = (if count c > 0 then Some (render_indices (max_indices c) (count c))
                      else None)
            in \<lparr>ret_code = 0,
                log_lines = [hello] @ logged ra @ [max_line max_val] @ overflow_log c
                  @ (case ri of
                       Some r \<Rightarrow> logged r
                     | None \<Rightarrow> [no_index_warning]),
                globals_after = g,
                max_val_found = max_val, indices_found = max_indices c, count_found = count c,
                array_str = Some ra, indices_str = ri\<rparr>))"

text \<open>
  The state in which the module is loaded: \<open>input_array\<close> is an array of
  \<open>MAX_ARRAY_SIZE\<close> ints.
\<close>

definition wf_globals :: "globals \<Rightarrow> bool" where
  "wf_globals g = (int (length (input_array g)) = MAX_ARRAY_SIZE)"

text \<open>The globals after \<open>insmod ... input_array=x1,...,xk\<close>: static storage is zeroed.\<close>

definition load :: "c_int list \<Rightarrow> globals" where
  "load xs = \<lparr>input_array = xs @ replicate (16 - length xs) 0, num_elements = int (length xs)\<rparr>"

section \<open>Notions used to state the properties\<close>

text \<open>The elements supplied at load time: the first \<open>num_elements\<close> slots of the array.\<close>

definition supplied :: "globals \<Rightarrow> c_int list" where
  "supplied g = take (nat (num_elements g)) (input_array g)"

text \<open>The values of a C \<open>int\<close>.\<close>

definition c_int_range :: "int \<Rightarrow> bool" where
  "c_int_range x = (- 2147483648 \<le> x \<and> x \<le> 2147483647)"

text \<open>The positions from \<open>i\<close> up to \<open>n - 1\<close> at which \<open>max_val\<close> occurs, in ascending order.\<close>

definition hits :: "c_int list \<Rightarrow> c_int \<Rightarrow> int \<Rightarrow> int \<Rightarrow> int list" where
  "hits arr max_val i n = filter (\<lambda>j. arr ! nat j = max_val) [i..n - 1]"

text \<open>
  The text of the elements \<open>i\<close> to \<open>k - 1\<close> as the loop prints them, and the complete
  rendering of a block: header, all \<open>n\<close> elements, closing bracket.
\<close>

definition items_text :: "(int \<Rightarrow> int) \<Rightarrow> int \<Rightarrow> int \<Rightarrow> int \<Rightarrow> string" where
  "items_text get n i k = concat (map (render_item get n) [i..k - 1])"

definition complete_text :: "string \<Rightarrow> (int \<Rightarrow> int) \<Rightarrow> int \<Rightarrow> string" where
  "complete_text hdr get n = hdr @ items_text get n 0 n @ '']''"

definition array_text :: "c_int list \<Rightarrow> int \<Rightarrow> string" where
  "array_text arr n = complete_text (array_header n) (\<lambda>i. sint (arr ! nat i)) n"

definition indices_text :: "int list \<Rightarrow> int \<Rightarrow> string" where
  "indices_text idxs cnt = complete_text indices_header (\<lambda>i. idxs ! nat i) cnt"

section \<open>Properties of the two scans\<close>

declare scan_max.simps [simp del]
declare collect_indices.simps [simp del]
declare render_loop.simps [simp del]
declare digits10.simps [simp del]

lemma scan_max_ge_seed: "sint m \<le> sint (scan_max arr n i m)"
proof (induction arr n i m rule: scan_max.induct)
  case (1 arr n i m)
  show ?case
  proof (cases "i < n")
    case True
    let ?m' = "if sint m < sint (arr ! nat i) then arr ! nat i else m"
    have step: "scan_max arr n i m = scan_max arr n (i + 1) ?m'"
      using True by (subst scan_max.simps) simp
    have "sint m \<le> sint ?m'" by simp
    also have "\<dots> \<le> sint (scan_max arr n (i + 1) ?m')" using 1 [OF True] .
    finally show ?thesis by (simp only: step)
  next
    case False
    then show ?thesis by (subst scan_max.simps) simp
  qed
qed

lemma scan_max_upper: "i \<le> j \<Longrightarrow> j < n \<Longrightarrow> sint (arr ! nat j) \<le> sint (scan_max arr n i m)"
proof (induction arr n i m rule: scan_max.induct)
  case (1 arr n i m)
  let ?m' = "if sint m < sint (arr ! nat i) then arr ! nat i else m"
  from 1 have lt: "i < n" by simp
  have step: "scan_max arr n i m = scan_max arr n (i + 1) ?m'"
    using lt by (subst scan_max.simps) simp
  show ?case
  proof (cases "j = i")
    case True
    have "sint (arr ! nat i) \<le> sint ?m'" by simp
    also have "\<dots> \<le> sint (scan_max arr n (i + 1) ?m')" by (rule scan_max_ge_seed)
    finally show ?thesis using True step by simp
  next
    case False
    with 1 have "i + 1 \<le> j" by simp
    from "1.IH" [OF lt this "1.prems"(2)] show ?thesis using step by simp
  qed
qed

lemma scan_max_member:
  "scan_max arr n i m = m \<or> (\<exists>j. i \<le> j \<and> j < n \<and> scan_max arr n i m = arr ! nat j)"
proof (induction arr n i m rule: scan_max.induct)
  case (1 arr n i m)
  show ?case
  proof (cases "i < n")
    case True
    let ?m' = "if sint m < sint (arr ! nat i) then arr ! nat i else m"
    have step: "scan_max arr n i m = scan_max arr n (i + 1) ?m'"
      using True by (subst scan_max.simps) simp
    from 1 [OF True] consider "scan_max arr n (i + 1) ?m' = ?m'"
      | j where "i + 1 \<le> j" "j < n" "scan_max arr n (i + 1) ?m' = arr ! nat j" by blast
    then show ?thesis
    proof cases
      case 1
      then show ?thesis using step True by (cases "sint m < sint (arr ! nat i)") auto
    next
      case 2
      then have "i \<le> j \<and> j < n \<and> scan_max arr n i m = arr ! nat j"
        by (simp only: step) simp
      then show ?thesis by blast
    qed
  next
    case False
    then show ?thesis by (subst scan_max.simps) simp
  qed
qed

lemma sint_INT_MIN_le: "sint INT_MIN \<le> sint (x :: c_int)"
  using sint_ge [of x] by (simp add: INT_MIN_def)

lemma scan_max_is_element:
  assumes "1 \<le> n"
  shows "\<exists>j. 0 \<le> j \<and> j < n \<and> scan_max arr n 0 INT_MIN = arr ! nat j"
proof -
  consider "scan_max arr n 0 INT_MIN = INT_MIN"
    | j where "0 \<le> j" "j < n" "scan_max arr n 0 INT_MIN = arr ! nat j"
    using scan_max_member [of arr n 0 INT_MIN] by blast
  then show ?thesis
  proof cases
    case 1
    have "sint (arr ! nat 0) \<le> sint (scan_max arr n 0 INT_MIN)"
      using assms by (intro scan_max_upper) simp_all
    with 1 have "sint (arr ! nat 0) \<le> sint INT_MIN" by simp
    with sint_INT_MIN_le [of "arr ! nat 0"] have "sint (arr ! nat 0) = sint INT_MIN" by simp
    then have "arr ! nat 0 = INT_MIN" by (rule signed_word_eqI)
    with 1 assms show ?thesis by (intro exI [of _ 0]) simp
  next
    case 2
    then show ?thesis by blast
  qed
qed

lemma hits_empty: "\<not> i < n \<Longrightarrow> hits arr max_val i n = []"
  by (simp add: hits_def)

lemma hits_step:
  "i < n \<Longrightarrow> hits arr max_val i n =
     (if arr ! nat i = max_val then [i] else []) @ hits arr max_val (i + 1) n"
  by (simp add: hits_def upto_rec1 [of i "n - 1"])

lemma collect_indices_char:
  assumes "count st = int (length (max_indices st))" and "length (max_indices st) \<le> 16"
  shows "collect_indices arr n max_val i st =
           st\<lparr>max_indices := take 16 (max_indices st @ hits arr max_val i n),
              count := int (length (take 16 (max_indices st @ hits arr max_val i n))),
              overflow_log := overflow_log st @
                (if 16 < length (max_indices st @ hits arr max_val i n)
                 then [storage_warning] else [])\<rparr>"
  using assms
proof (induction arr n max_val i st rule: collect_indices.induct)
  case (1 arr n max_val i st)
  show ?case
  proof (cases "i < n")
    case False
    then show ?thesis using "1.prems"
      by (subst collect_indices.simps) (simp add: hits_empty)
  next
    case True
    note lt = this
    show ?thesis
    proof (cases "arr ! nat i = max_val")
      case False
      from "1.IH"(2) [OF lt False "1.prems"] show ?thesis
        using lt False by (subst collect_indices.simps) (simp add: hits_step)
    next
      case True
      note hit = this
      show ?thesis
      proof (cases "count st < MAX_ARRAY_SIZE")
        case True
        let ?st' = "st\<lparr>max_indices := max_indices st @ [i], count := count st + 1\<rparr>"
        have p1: "count ?st' = int (length (max_indices ?st'))" using "1.prems" by simp
        have p2: "length (max_indices ?st') \<le> 16"
          using "1.prems" True by (simp add: MAX_ARRAY_SIZE_def)
        from "1.IH"(1) [OF lt hit True p1 p2] show ?thesis
          using lt hit True by (subst collect_indices.simps) (simp add: hits_step)
      next
        case False
        with "1.prems" have "length (max_indices st) = 16" by (simp add: MAX_ARRAY_SIZE_def)
        then show ?thesis using lt hit False "1.prems"
          by (subst collect_indices.simps) (simp add: hits_step)
      qed
    qed
  qed
qed

section \<open>Properties of the rendering blocks\<close>

lemma digits10_length: "0 < k \<Longrightarrow> n < 10 ^ k \<Longrightarrow> length (digits10 n) \<le> k"
proof (induction n arbitrary: k rule: digits10.induct)
  case (1 n)
  show ?case
  proof (cases "n < 10")
    case True
    then show ?thesis using "1.prems" by (subst digits10.simps) simp
  next
    case False
    with "1.prems" have "k \<noteq> 1" by auto
    with "1.prems" obtain k' where k: "k = Suc k'" "0 < k'" by (cases k) auto
    with "1.prems" have "n div 10 < 10 ^ k'" by (simp add: less_mult_imp_div_less)
    from "1.IH" [OF False k(2) this] show ?thesis
      using False k by (subst digits10.simps) simp
  qed
qed

lemma fmt_d_length: "c_int_range x \<Longrightarrow> length (fmt_d x) \<le> 11"
proof -
  assume r: "c_int_range x"
  show ?thesis
  proof (cases "x < 0")
    case True
    with r have "nat (- x) < 10 ^ 10" by (simp add: c_int_range_def)
    from digits10_length [OF _ this] show ?thesis using True by (simp add: fmt_d_def)
  next
    case False
    with r have "nat x < 10 ^ 10" by (simp add: c_int_range_def)
    from digits10_length [OF _ this] show ?thesis using False by (simp add: fmt_d_def)
  qed
qed

lemma fmt_d_length_small: "0 \<le> x \<Longrightarrow> x < 100 \<Longrightarrow> length (fmt_d x) \<le> 2"
proof -
  assume "0 \<le> x" "x < 100"
  then have "nat x < 10 ^ 2" by simp
  from digits10_length [OF _ this] show ?thesis using \<open>0 \<le> x\<close> by (simp add: fmt_d_def)
qed

lemma render_item_length: "c_int_range (get i) \<Longrightarrow> length (render_item get n i) \<le> 13"
  using fmt_d_length [of "get i"] by (cases "i = n - 1") (simp_all add: render_item_def)

lemma size_t_id: "0 \<le> x \<Longrightarrow> x \<le> 256 \<Longrightarrow> size_t x = x"
  by (simp add: size_t_def)

text \<open>One iteration of the loop, when the element fits and when it does not.\<close>

lemma render_loop_fit:
  assumes "i < n" "0 \<le> offset st" "offset st \<le> 255"
    and "offset st + int (length (render_item get n i)) \<le> 255"
  shows "render_loop warn get n i st =
           render_loop warn get n (i + 1)
             (st\<lparr>chars := take (nat (offset st)) (chars st) @ render_item get n i,
                 offset := offset st + int (length (render_item get n i))\<rparr>)"
proof -
  have sz: "size_t (256 - offset st) = 256 - offset st"
    using assms by (simp add: size_t_id)
  have rt: "size_t (int (length (render_item get n i))) = int (length (render_item get n i))"
    using assms by (simp add: size_t_id)
  show ?thesis using assms
    by (subst render_loop.simps) (simp add: Let_def sz rt snprintf_at_def BUF_SIZE_def)
qed

lemma render_loop_unfit:
  assumes "i < n" "0 \<le> offset st" "offset st \<le> 255"
    and "255 < offset st + int (length (render_item get n i))"
    and "length (render_item get n i) \<le> 13"
  shows "render_loop warn get n i st =
           st\<lparr>chars := take (nat (offset st)) (chars st)
                          @ take (nat (255 - offset st)) (render_item get n i),
              logged := logged st @ [truncation_warning warn]\<rparr>"
proof -
  have sz: "size_t (256 - offset st) = 256 - offset st"
    using assms by (simp add: size_t_id)
  have rt: "size_t (int (length (render_item get n i))) = int (length (render_item get n i))"
    using assms by (simp add: size_t_id)
  show ?thesis using assms
    by (subst render_loop.simps)
       (simp add: Let_def sz rt snprintf_at_def BUF_SIZE_def truncation_warning_def)
qed

lemma render_loop_done: "\<not> i < n \<Longrightarrow> render_loop warn get n i st = st"
  by (subst render_loop.simps) simp

lemma items_text_empty: "k \<le> i \<Longrightarrow> items_text get n i k = []"
  by (simp add: items_text_def)

lemma items_text_step:
  "i < k \<Longrightarrow> items_text get n i k = render_item get n i @ items_text get n (i + 1) k"
  by (simp add: items_text_def upto_rec1 [of i "k - 1"])

lemma items_text_snoc:
  "i \<le> k \<Longrightarrow> items_text get n i (k + 1) = items_text get n i k @ render_item get n k"
  by (simp add: items_text_def upto_rec2 [of i k])

lemma render_loop_char:
  assumes "offset st = int (length (chars st))" and "offset st \<le> 255"
    and "\<forall>j. i \<le> j \<and> j < n \<longrightarrow> c_int_range (get j)"
  shows "\<exists>k. i \<le> k \<and> k \<le> max i n \<and>
           offset (render_loop warn get n i st) = int (length (chars st @ items_text get n i k)) \<and>
           offset (render_loop warn get n i st) \<le> 255 \<and>
           take (length (chars st @ items_text get n i k)) (chars (render_loop warn get n i st))
             = chars st @ items_text get n i k \<and>
           overrun (render_loop warn get n i st) = overrun st \<and>
           (k < n \<longrightarrow>
              logged (render_loop warn get n i st) = logged st @ [truncation_warning warn]
              \<and> 255 < length (chars st @ items_text get n i k) + length (render_item get n k)) \<and>
           (\<not> k < n \<longrightarrow>
              logged (render_loop warn get n i st) = logged st
              \<and> chars (render_loop warn get n i st) = chars st @ items_text get n i k)"
  using assms
proof (induction "nat (n - i)" arbitrary: i st)
  case 0
  then have "\<not> i < n" by simp
  then show ?case using "0.prems"
    by (intro exI [of _ i]) (simp add: render_loop_done items_text_empty)
next
  case (Suc m)
  then have lt: "i < n" by simp
  let ?t = "render_item get n i"
  have len: "length ?t \<le> 13" using Suc.prems lt by (intro render_item_length) simp
  have off0: "0 \<le> offset st" using Suc.prems by simp
  show ?case
  proof (cases "offset st + int (length ?t) \<le> 255")
    case True
    let ?st' = "st\<lparr>chars := take (nat (offset st)) (chars st) @ ?t,
                     offset := offset st + int (length ?t)\<rparr>"
    have eq: "render_loop warn get n i st = render_loop warn get n (i + 1) ?st'"
      using lt off0 Suc.prems(2) True by (rule render_loop_fit)
    have ch: "chars ?st' = chars st @ ?t" using Suc.prems by simp
    have m: "m = nat (n - (i + 1))" using Suc.hyps(2) by simp
    have a1: "offset ?st' = int (length (chars ?st'))" using Suc.prems by simp
    have a2: "offset ?st' \<le> 255" using True by simp
    have a3: "\<forall>j. i + 1 \<le> j \<and> j < n \<longrightarrow> c_int_range (get j)" using Suc.prems by simp
    from Suc.hyps(1) [OF m a1 a2 a3] obtain k where k: "i + 1 \<le> k" "k \<le> max (i + 1) n"
      "offset (render_loop warn get n (i + 1) ?st') = int (length (chars ?st' @ items_text get n (i + 1) k))"
      "offset (render_loop warn get n (i + 1) ?st') \<le> 255"
      "take (length (chars ?st' @ items_text get n (i + 1) k)) (chars (render_loop warn get n (i + 1) ?st'))
             = chars ?st' @ items_text get n (i + 1) k"
      "overrun (render_loop warn get n (i + 1) ?st') = overrun ?st'"
      "k < n \<longrightarrow>
            logged (render_loop warn get n (i + 1) ?st') = logged ?st' @ [truncation_warning warn]
            \<and> 255 < length (chars ?st' @ items_text get n (i + 1) k) + length (render_item get n k)"
      "\<not> k < n \<longrightarrow>
            logged (render_loop warn get n (i + 1) ?st') = logged ?st'
            \<and> chars (render_loop warn get n (i + 1) ?st') = chars ?st' @ items_text get n (i + 1) k"
      by blast
    have it: "chars ?st' @ items_text get n (i + 1) k = chars st @ items_text get n i k"
      using k(1) by (simp only: ch) (simp add: items_text_step [of i k])
    have "i \<le> k" "k \<le> max i n" using k(1,2) lt by simp_all
    moreover note k(3-8) [unfolded it, folded eq]
    ultimately show ?thesis by (intro exI [of _ k]) simp
  next
    case False
    then have big: "255 < offset st + int (length ?t)" by simp
    have eq: "render_loop warn get n i st =
           st\<lparr>chars := take (nat (offset st)) (chars st) @ take (nat (255 - offset st)) ?t,
              logged := logged st @ [truncation_warning warn]\<rparr>"
      using lt off0 Suc.prems(2) big len by (rule render_loop_unfit)
    show ?thesis using lt big Suc.prems(1,2)
      by (intro exI [of _ i]) (simp add: eq items_text_empty)
  qed
qed

lemma render_block_unfold:
  assumes "length hdr \<le> 255"
  shows "render_block hdr warn get n =
     (let st2 = render_loop warn get n 0
                  \<lparr>chars = hdr, offset = int (length hdr), overrun = False, logged = []\<rparr>;
          st3 = fst (snprintf_at st2 (size_t (BUF_SIZE - offset st2)) '']'')
      in st3\<lparr>logged := logged st3 @ [(KERN_INFO, chars st3 @ NL)]\<rparr>)"
proof -
  have "size_t 256 = 256" by (simp add: size_t_def)
  then show ?thesis using assms
    by (cases "hdr = []") (simp_all add: render_block_def Let_def snprintf_at_def BUF_SIZE_def)
qed

lemma close_bracket:
  assumes "0 \<le> offset st" "offset st \<le> 255"
  shows "fst (snprintf_at st (size_t (BUF_SIZE - offset st)) '']'') =
           st\<lparr>chars := take (nat (offset st)) (chars st) @ take (nat (255 - offset st)) '']''\<rparr>"
proof -
  have sz: "size_t (256 - offset st) = 256 - offset st"
    using assms by (simp add: size_t_id)
  have "\<not> 256 \<le> offset st + min 1 (255 - offset st)" using assms by (simp add: min_def)
  then show ?thesis using assms by (simp add: snprintf_at_def BUF_SIZE_def sz)
qed

lemma render_block_char:
  assumes "length hdr \<le> 255" and "\<forall>j. 0 \<le> j \<and> j < n \<longrightarrow> c_int_range (get j)"
  shows "\<exists>k. 0 \<le> k \<and> k \<le> max 0 n \<and> length (hdr @ items_text get n 0 k) \<le> 255 \<and>
           chars (render_block hdr warn get n) = take 255 (hdr @ items_text get n 0 k @ '']'') \<and>
           \<not> overrun (render_block hdr warn get n) \<and>
           (k < n \<longrightarrow>
              logged (render_block hdr warn get n) =
                [truncation_warning warn, (KERN_INFO, chars (render_block hdr warn get n) @ NL)]
              \<and> 255 < length (hdr @ items_text get n 0 k) + length (render_item get n k)) \<and>
           (\<not> k < n \<longrightarrow>
              logged (render_block hdr warn get n) =
                [(KERN_INFO, chars (render_block hdr warn get n) @ NL)])"
proof -
  let ?st1 = "\<lparr>chars = hdr, offset = int (length hdr), overrun = False, logged = []\<rparr>"
  let ?R = "render_loop warn get n 0 ?st1"
  have a1: "offset ?st1 = int (length (chars ?st1))" by simp
  have a2: "offset ?st1 \<le> 255" using assms by simp
  have "\<exists>k. 0 \<le> k \<and> k \<le> max 0 n \<and>
    offset ?R = int (length (hdr @ items_text get n 0 k)) \<and>
    offset ?R \<le> 255 \<and>
    take (length (hdr @ items_text get n 0 k)) (chars ?R) = hdr @ items_text get n 0 k \<and>
    overrun ?R = False \<and>
    (k < n \<longrightarrow> logged ?R = [truncation_warning warn]
          \<and> 255 < length (hdr @ items_text get n 0 k) + length (render_item get n k)) \<and>
    (\<not> k < n \<longrightarrow> logged ?R = [] \<and> chars ?R = hdr @ items_text get n 0 k)"
    using render_loop_char [OF a1 a2 assms(2), of warn] by simp
  then obtain k where k: "0 \<le> k" "k \<le> max 0 n"
    "offset ?R = int (length (hdr @ items_text get n 0 k))"
    "offset ?R \<le> 255"
    "take (length (hdr @ items_text get n 0 k)) (chars ?R) = hdr @ items_text get n 0 k"
    "overrun ?R = False"
    "k < n \<longrightarrow> logged ?R = [truncation_warning warn]
          \<and> 255 < length (hdr @ items_text get n 0 k) + length (render_item get n k)"
    "\<not> k < n \<longrightarrow> logged ?R = [] \<and> chars ?R = hdr @ items_text get n 0 k"
    by blast
  have off0: "0 \<le> offset ?R" using k(3) by simp
  have B: "render_block hdr warn get n =
      (?R\<lparr>chars := take (nat (offset ?R)) (chars ?R) @ take (nat (255 - offset ?R)) '']''\<rparr>)
       \<lparr>logged := logged ?R @
          [(KERN_INFO, (take (nat (offset ?R)) (chars ?R) @ take (nat (255 - offset ?R)) '']'') @ NL)]\<rparr>"
    by (simp add: render_block_unfold [OF assms(1)] Let_def close_bracket [OF off0 k(4)])
  have "nat (offset ?R) = length (hdr @ items_text get n 0 k)"
    by (simp only: k(3) nat_int)
  then have tk: "take (nat (offset ?R)) (chars ?R) = hdr @ items_text get n 0 k"
    using k(5) by simp
  have ch: "chars (render_block hdr warn get n) = take 255 (hdr @ items_text get n 0 k @ '']'')"
  proof -
    have "chars (render_block hdr warn get n)
            = (hdr @ items_text get n 0 k) @ take (nat (255 - offset ?R)) '']''"
      by (simp add: B tk)
    also have "nat (255 - offset ?R) = 255 - length (hdr @ items_text get n 0 k)"
      using k(3) by simp
    also have "(hdr @ items_text get n 0 k) @ take (255 - length (hdr @ items_text get n 0 k)) '']''
            = take 255 ((hdr @ items_text get n 0 k) @ '']'')"
      using k(3,4) by (simp only: take_append) simp
    finally show ?thesis by simp
  qed
  have ov: "\<not> overrun (render_block hdr warn get n)" by (simp add: B k(6))
  have w: "logged (render_block hdr warn get n) =
             logged ?R @ [(KERN_INFO, chars (render_block hdr warn get n) @ NL)]"
    by (simp add: B)
  have len: "length (hdr @ items_text get n 0 k) \<le> 255" using k(3,4) by simp
  show ?thesis
    using k(1,2,7,8) len ch ov w by (intro exI [of _ k]) simp
qed


lemma items_text_append:
  assumes "i \<le> k" "k \<le> m"
  shows "items_text get n i m = items_text get n i k @ items_text get n k m"
proof (cases "k = i")
  case True
  then show ?thesis by (simp add: items_text_empty)
next
  case False
  with assms have "i \<le> k - 1" "k - 1 \<le> m - 1" by simp_all
  from upto_split2 [OF this] show ?thesis by (simp add: items_text_def)
qed

lemma items_text_unfit_bound:
  assumes "0 \<le> k" "k < n"
  shows "length (items_text get n 0 k) + length (render_item get n k)
           \<le> length (items_text get n 0 n)"
proof -
  have "items_text get n 0 n = items_text get n 0 k @ items_text get n k n"
    using assms by (intro items_text_append) simp_all
  also have "items_text get n k n = render_item get n k @ items_text get n (k + 1) n"
    using assms by (intro items_text_step)
  finally show ?thesis by simp
qed

lemma items_text_length_le:
  assumes "\<forall>j. i \<le> j \<and> j < k \<longrightarrow> length (render_item get n j) \<le> c"
  shows "length (items_text get n i k) \<le> c * nat (k - i)"
  using assms
proof (induction "nat (k - i)" arbitrary: i)
  case 0
  then show ?case by (simp add: items_text_empty)
next
  case (Suc m)
  then have lt: "i < k" by simp
  have "m = nat (k - (i + 1))" using Suc.hyps(2) by simp
  moreover have "\<forall>j. i + 1 \<le> j \<and> j < k \<longrightarrow> length (render_item get n j) \<le> c"
    using Suc.prems by simp
  ultimately have "length (items_text get n (i + 1) k) \<le> c * nat (k - (i + 1))"
    by (rule Suc.hyps(1))
  moreover have "length (render_item get n i) \<le> c" using Suc.prems lt by simp
  moreover have "nat (k - i) = Suc (nat (k - (i + 1)))" using lt by simp
  ultimately show ?case by (simp add: items_text_step [OF lt])
qed

lemma render_block_safe:
  assumes "length hdr \<le> 255" and "\<forall>j. 0 \<le> j \<and> j < n \<longrightarrow> c_int_range (get j)"
  shows "\<not> overrun (render_block hdr warn get n)"
    and "length (chars (render_block hdr warn get n)) \<le> 255"
proof -
  from render_block_char [OF assms, of warn] obtain k where
    "chars (render_block hdr warn get n) = take 255 (hdr @ items_text get n 0 k @ '']'')"
    "\<not> overrun (render_block hdr warn get n)" by blast
  then show "\<not> overrun (render_block hdr warn get n)"
    and "length (chars (render_block hdr warn get n)) \<le> 255" by simp_all
qed

lemma render_block_fits:
  assumes "length (hdr @ items_text get n 0 n) \<le> 254"
    and "\<forall>j. 0 \<le> j \<and> j < n \<longrightarrow> c_int_range (get j)"
  shows "chars (render_block hdr warn get n) = complete_text hdr get n"
    and "logged (render_block hdr warn get n) = [(KERN_INFO, complete_text hdr get n @ NL)]"
proof -
  have hdr: "length hdr \<le> 255" using assms(1) by simp
  from render_block_char [OF hdr assms(2), of warn] obtain k where k:
    "0 \<le> k" "k \<le> max 0 n"
    "chars (render_block hdr warn get n) = take 255 (hdr @ items_text get n 0 k @ '']'')"
    "k < n \<longrightarrow> 255 < length (hdr @ items_text get n 0 k) + length (render_item get n k)"
    "\<not> k < n \<longrightarrow> logged (render_block hdr warn get n) =
                [(KERN_INFO, chars (render_block hdr warn get n) @ NL)]"
    by blast
  have nlt: "\<not> k < n"
  proof
    assume "k < n"
    with k(4) items_text_unfit_bound [OF k(1) this, of get] assms(1) show False by simp
  qed
  have "items_text get n 0 k = items_text get n 0 n"
  proof (cases "0 \<le> n")
    case True
    with k(2) nlt have "k = n" by simp
    then show ?thesis by simp
  next
    case False
    with k(1,2) have "k = 0" by simp
    with False show ?thesis by (simp add: items_text_empty)
  qed
  then have ch: "chars (render_block hdr warn get n) = complete_text hdr get n"
    using k(3) assms(1) by (simp add: complete_text_def)
  then show "chars (render_block hdr warn get n) = complete_text hdr get n" .
  show "logged (render_block hdr warn get n) = [(KERN_INFO, complete_text hdr get n @ NL)]"
    using k(5) nlt ch by simp
qed

lemma render_block_unfit:
  assumes "length hdr \<le> 255" and "\<forall>j. 0 \<le> j \<and> j < n \<longrightarrow> c_int_range (get j)"
    and "255 < length (hdr @ items_text get n 0 n)"
  shows "\<exists>k. 0 \<le> k \<and> k < n \<and>
           chars (render_block hdr warn get n) = take 255 (hdr @ items_text get n 0 k @ '']'') \<and>
           logged (render_block hdr warn get n) =
             [truncation_warning warn, (KERN_INFO, chars (render_block hdr warn get n) @ NL)]"
proof -
  from render_block_char [OF assms(1,2), of warn] obtain k where k:
    "0 \<le> k" "k \<le> max 0 n" "length (hdr @ items_text get n 0 k) \<le> 255"
    "chars (render_block hdr warn get n) = take 255 (hdr @ items_text get n 0 k @ '']'')"
    "k < n \<longrightarrow> logged (render_block hdr warn get n) =
                [truncation_warning warn, (KERN_INFO, chars (render_block hdr warn get n) @ NL)]"
    by blast
  have "k < n"
  proof (rule ccontr)
    assume nlt: "\<not> k < n"
    have "items_text get n 0 k = items_text get n 0 n"
    proof (cases "0 \<le> n")
      case True
      with k(2) nlt have "k = n" by simp
      then show ?thesis by simp
    next
      case False
      with k(1,2) have "k = 0" by simp
      with False show ?thesis by (simp add: items_text_empty)
    qed
    with k(3) assms(3) show False by simp
  qed
  with k show ?thesis by blast
qed

text \<open>
  The closing bracket is written without a check: when the header and the elements take
  exactly 255 characters, the bracket is cut and nothing is logged about it. (With at
  most 16 elements the text is far shorter, see \<open>render_array_valid\<close> below.)
\<close>

lemma render_block_bracket_cut:
  assumes "length (hdr @ items_text get n 0 n) = 255"
    and "\<forall>j. 0 \<le> j \<and> j < n \<longrightarrow> c_int_range (get j)"
  shows "chars (render_block hdr warn get n) = hdr @ items_text get n 0 n"
    and "logged (render_block hdr warn get n) = [(KERN_INFO, (hdr @ items_text get n 0 n) @ NL)]"
proof -
  have hdr: "length hdr \<le> 255" using assms(1) by simp
  from render_block_char [OF hdr assms(2), of warn] obtain k where k:
    "0 \<le> k" "k \<le> max 0 n"
    "chars (render_block hdr warn get n) = take 255 (hdr @ items_text get n 0 k @ '']'')"
    "k < n \<longrightarrow> 255 < length (hdr @ items_text get n 0 k) + length (render_item get n k)"
    "\<not> k < n \<longrightarrow> logged (render_block hdr warn get n) =
                [(KERN_INFO, chars (render_block hdr warn get n) @ NL)]"
    by blast
  have nlt: "\<not> k < n"
  proof
    assume "k < n"
    with k(4) items_text_unfit_bound [OF k(1) this, of get] assms(1) show False by simp
  qed
  have "items_text get n 0 k = items_text get n 0 n"
  proof (cases "0 \<le> n")
    case True
    with k(2) nlt have "k = n" by simp
    then show ?thesis by simp
  next
    case False
    with k(1,2) have "k = 0" by simp
    with False show ?thesis by (simp add: items_text_empty)
  qed
  then have ch: "chars (render_block hdr warn get n) = hdr @ items_text get n 0 n"
    using k(3) assms(1) by simp
  then show "chars (render_block hdr warn get n) = hdr @ items_text get n 0 n" .
  show "logged (render_block hdr warn get n) = [(KERN_INFO, (hdr @ items_text get n 0 n) @ NL)]"
    using k(5) nlt ch by simp
qed

lemma array_header_length: "c_int_range n \<Longrightarrow> length (array_header n) \<le> 34"
  using fmt_d_length [of n] by (simp add: array_header_def)

lemma array_header_length_small: "0 \<le> n \<Longrightarrow> n < 100 \<Longrightarrow> length (array_header n) \<le> 25"
  using fmt_d_length_small [of n] by (simp add: array_header_def)

lemma indices_header_length: "length indices_header = 25"
  by (simp add: indices_header_def)

lemma sint_c_int_range: "c_int_range (sint (x :: c_int))"
  using sint_ge [of x] sint_lt [of x] by (simp add: c_int_range_def)

lemma hits_length: "length (hits arr max_val i n) \<le> nat (n - i)"
proof -
  have "length (hits arr max_val i n) \<le> length [i..n - 1]"
    unfolding hits_def by (rule length_filter_le)
  then show ?thesis by simp
qed

lemma set_hits: "set (hits arr max_val i n) = {j. i \<le> j \<and> j < n \<and> arr ! nat j = max_val}"
  by (auto simp: hits_def)

lemma sorted_hits: "sorted_wrt (<) (hits arr max_val i n)"
  unfolding hits_def by (intro sorted_wrt_filter sorted_wrt_upto)


section \<open>A run on a valid input\<close>

lemma collect_indices_from_start:
  "collect_indices arr n max_val 0 \<lparr>max_indices = [], count = 0, overflow_log = []\<rparr> =
     \<lparr>max_indices = take 16 (hits arr max_val 0 n),
      count = int (length (take 16 (hits arr max_val 0 n))),
      overflow_log = (if 16 < length (hits arr max_val 0 n) then [storage_warning] else [])\<rparr>"
  by (subst collect_indices_char) simp_all

lemma collect_indices_valid:
  assumes "n \<le> 16"
  shows "collect_indices arr n max_val 0 \<lparr>max_indices = [], count = 0, overflow_log = []\<rparr> =
     \<lparr>max_indices = hits arr max_val 0 n, count = int (length (hits arr max_val 0 n)),
      overflow_log = []\<rparr>"
proof -
  have "length (hits arr max_val 0 n) \<le> 16"
    using hits_length [of arr max_val 0 n] assms by simp
  then show ?thesis by (simp add: collect_indices_from_start)
qed

lemma hits_nonempty:
  assumes "1 \<le> n"
  shows "hits arr (scan_max arr n 0 INT_MIN) 0 n \<noteq> []"
proof -
  from scan_max_is_element [OF assms, of arr] obtain j where
    "0 \<le> j" "j < n" "scan_max arr n 0 INT_MIN = arr ! nat j" by blast
  then have "j \<in> set (hits arr (scan_max arr n 0 INT_MIN) 0 n)" by (simp add: set_hits)
  then show ?thesis by auto
qed

lemma find_max_init_valid:
  assumes "1 \<le> num_elements g" "num_elements g \<le> 16"
  shows "find_max_init g =
     \<lparr>ret_code = 0,
      log_lines = [hello] @ logged (render_array (input_array g) (num_elements g))
        @ [max_line (scan_max (input_array g) (num_elements g) 0 INT_MIN)]
        @ logged (render_indices
            (hits (input_array g) (scan_max (input_array g) (num_elements g) 0 INT_MIN) 0 (num_elements g))
            (int (length (hits (input_array g) (scan_max (input_array g) (num_elements g) 0 INT_MIN) 0 (num_elements g))))),
      globals_after = g,
      max_val_found = scan_max (input_array g) (num_elements g) 0 INT_MIN,
      indices_found = hits (input_array g) (scan_max (input_array g) (num_elements g) 0 INT_MIN) 0 (num_elements g),
      count_found = int (length (hits (input_array g) (scan_max (input_array g) (num_elements g) 0 INT_MIN) 0 (num_elements g))),
      array_str = Some (render_array (input_array g) (num_elements g)),
      indices_str = Some (render_indices
            (hits (input_array g) (scan_max (input_array g) (num_elements g) 0 INT_MIN) 0 (num_elements g))
            (int (length (hits (input_array g) (scan_max (input_array g) (num_elements g) 0 INT_MIN) 0 (num_elements g)))))\<rparr>"
  using assms hits_nonempty [OF assms(1), of "input_array g"]
  by (simp add: find_max_init_def Let_def MAX_ARRAY_SIZE_def collect_indices_valid)

lemma render_array_valid:
  assumes "1 \<le> n" "n \<le> 16"
  shows "chars (render_array arr n) = array_text arr n"
    and "logged (render_array arr n) = [(KERN_INFO, array_text arr n @ NL)]"
    and "\<not> overrun (render_array arr n)"
    and "length (array_text arr n) \<le> 234"
proof -
  let ?get = "\<lambda>i. sint (arr ! nat i)"
  have rng: "\<forall>j. 0 \<le> j \<and> j < n \<longrightarrow> c_int_range (?get j)" by (simp add: sint_c_int_range)
  have h: "length (array_header n) \<le> 25" using assms by (intro array_header_length_small) simp_all
  have "\<forall>j. 0 \<le> j \<and> j < n \<longrightarrow> length (render_item ?get n j) \<le> 13"
    by (simp add: render_item_length sint_c_int_range)
  from items_text_length_le [OF this] have "length (items_text ?get n 0 n) \<le> 13 * nat n" by simp
  with assms have i: "length (items_text ?get n 0 n) \<le> 208" by simp
  from h i have fit: "length (array_header n @ items_text ?get n 0 n) \<le> 254" by simp
  show "chars (render_array arr n) = array_text arr n"
    unfolding render_array_def array_text_def by (rule render_block_fits(1) [OF fit rng])
  show "logged (render_array arr n) = [(KERN_INFO, array_text arr n @ NL)]"
    unfolding render_array_def array_text_def by (rule render_block_fits(2) [OF fit rng])
  show "\<not> overrun (render_array arr n)"
    unfolding render_array_def using h by (intro render_block_safe(1) rng) simp
  show "length (array_text arr n) \<le> 234"
    using h i by (simp add: array_text_def complete_text_def)
qed

lemma render_indices_valid:
  assumes "\<forall>x \<in> set idxs. 0 \<le> x \<and> x < 16" and "length idxs \<le> 16" and "cnt = int (length idxs)"
  shows "chars (render_indices idxs cnt) = indices_text idxs cnt"
    and "logged (render_indices idxs cnt) = [(KERN_INFO, indices_text idxs cnt @ NL)]"
    and "\<not> overrun (render_indices idxs cnt)"
    and "length (indices_text idxs cnt) \<le> 90"
proof -
  let ?get = "\<lambda>i. idxs ! nat i"
  have el: "\<forall>j. 0 \<le> j \<and> j < cnt \<longrightarrow> 0 \<le> ?get j \<and> ?get j < 16"
    using assms(1,3) by (simp add: nat_less_iff)
  then have rng: "\<forall>j. 0 \<le> j \<and> j < cnt \<longrightarrow> c_int_range (?get j)"
    by (auto simp: c_int_range_def)
  have "\<forall>j. 0 \<le> j \<and> j < cnt \<longrightarrow> length (render_item ?get cnt j) \<le> 4"
  proof (intro allI impI)
    fix j assume j: "0 \<le> j \<and> j < cnt"
    with el have "0 \<le> ?get j" "?get j < 100" by auto
    from fmt_d_length_small [OF this] show "length (render_item ?get cnt j) \<le> 4"
      by (cases "j = cnt - 1") (simp_all add: render_item_def)
  qed
  from items_text_length_le [OF this] have "length (items_text ?get cnt 0 cnt) \<le> 4 * nat cnt" by simp
  with assms have i: "length (items_text ?get cnt 0 cnt) \<le> 64" by simp
  then have fit: "length (indices_header @ items_text ?get cnt 0 cnt) \<le> 254"
    by (simp add: indices_header_length)
  show "chars (render_indices idxs cnt) = indices_text idxs cnt"
    unfolding render_indices_def indices_text_def by (rule render_block_fits(1) [OF fit rng])
  show "logged (render_indices idxs cnt) = [(KERN_INFO, indices_text idxs cnt @ NL)]"
    unfolding render_indices_def indices_text_def by (rule render_block_fits(2) [OF fit rng])
  show "\<not> overrun (render_indices idxs cnt)"
    unfolding render_indices_def by (intro render_block_safe(1) rng) (simp add: indices_header_length)
  show "length (indices_text idxs cnt) \<le> 90"
    using i by (simp add: indices_text_def complete_text_def indices_header_length)
qed

lemma hits_small:
  assumes "n \<le> 16"
  shows "\<forall>x \<in> set (hits arr max_val 0 n). 0 \<le> x \<and> x < 16"
    and "length (hits arr max_val 0 n) \<le> 16"
  using assms hits_length [of arr max_val 0 n] by (auto simp: set_hits)

lemma valid_run_log:
  assumes "1 \<le> num_elements g" "num_elements g \<le> 16"
  shows "log_lines (find_max_init g) =
     [hello,
      (KERN_INFO, array_text (input_array g) (num_elements g) @ NL),
      max_line (max_val_found (find_max_init g)),
      (KERN_INFO, indices_text (indices_found (find_max_init g)) (count_found (find_max_init g)) @ NL)]"
  using render_array_valid(2) [OF assms, of "input_array g"]
    render_indices_valid(2) [OF hits_small [OF assms(2)] refl,
      of "input_array g" "scan_max (input_array g) (num_elements g) 0 INT_MIN"]
  by (simp add: find_max_init_valid [OF assms])


lemma supplied_valid:
  assumes "wf_globals g" "1 \<le> num_elements g" "num_elements g \<le> 16"
  shows "length (supplied g) = nat (num_elements g)"
    and "\<And>i. i < nat (num_elements g) \<Longrightarrow> supplied g ! i = input_array g ! i"
  using assms by (simp_all add: supplied_def wf_globals_def MAX_ARRAY_SIZE_def)


lemma render_array_safe:
  assumes "c_int_range n"
  shows "\<not> overrun (render_array arr n)" and "length (chars (render_array arr n)) \<le> 255"
proof -
  have h: "length (array_header n) \<le> 255" using array_header_length [OF assms] by simp
  have rng: "\<forall>j. 0 \<le> j \<and> j < n \<longrightarrow> c_int_range (sint (arr ! nat j))"
    by (simp add: sint_c_int_range)
  show "\<not> overrun (render_array arr n)"
    unfolding render_array_def by (rule render_block_safe(1) [OF h rng])
  show "length (chars (render_array arr n)) \<le> 255"
    unfolding render_array_def by (rule render_block_safe(2) [OF h rng])
qed


lemma idxs_range:
  assumes "\<forall>x \<in> set idxs. c_int_range x" "cnt \<le> int (length idxs)"
  shows "\<forall>j. 0 \<le> j \<and> j < cnt \<longrightarrow> c_int_range (idxs ! nat j)"
  using assms by (simp add: nat_less_iff)


lemma render_indices_safe:
  assumes "\<forall>x \<in> set idxs. c_int_range x" "cnt \<le> int (length idxs)"
  shows "\<not> overrun (render_indices idxs cnt)"
    and "length (chars (render_indices idxs cnt)) \<le> 255"
proof -
  have h: "length indices_header \<le> 255" by (simp add: indices_header_length)
  note rng = idxs_range [OF assms]
  show "\<not> overrun (render_indices idxs cnt)"
    unfolding render_indices_def by (rule render_block_safe(1) [OF h rng])
  show "length (chars (render_indices idxs cnt)) \<le> 255"
    unfolding render_indices_def by (rule render_block_safe(2) [OF h rng])
qed


lemma render_array_unfit:
  assumes "c_int_range n"
    and "255 < length (array_header n @ items_text (\<lambda>i. sint (arr ! nat i)) n 0 n)"
  shows "\<exists>k. 0 \<le> k \<and> k < n \<and>
           chars (render_array arr n) =
             take 255 (array_header n @ items_text (\<lambda>i. sint (arr ! nat i)) n 0 k @ '']'') \<and>
           logged (render_array arr n) =
             [truncation_warning array_warning, (KERN_INFO, chars (render_array arr n) @ NL)]"
proof -
  have h: "length (array_header n) \<le> 255" using array_header_length [OF assms(1)] by simp
  have rng: "\<forall>j. 0 \<le> j \<and> j < n \<longrightarrow> c_int_range (sint (arr ! nat j))"
    by (simp add: sint_c_int_range)
  show ?thesis unfolding render_array_def by (rule render_block_unfit [OF h rng assms(2)])
qed


lemma render_indices_unfit:
  assumes "\<forall>x \<in> set idxs. c_int_range x" "cnt \<le> int (length idxs)"
    and "255 < length (indices_header @ items_text (\<lambda>i. idxs ! nat i) cnt 0 cnt)"
  shows "\<exists>k. 0 \<le> k \<and> k < cnt \<and>
           chars (render_indices idxs cnt) =
             take 255 (indices_header @ items_text (\<lambda>i. idxs ! nat i) cnt 0 k @ '']'') \<and>
           logged (render_indices idxs cnt) =
             [truncation_warning indices_warning, (KERN_INFO, chars (render_indices idxs cnt) @ NL)]"
proof -
  have h: "length indices_header \<le> 255" by (simp add: indices_header_length)
  show ?thesis unfolding render_indices_def
    by (rule render_block_unfit [OF h idxs_range [OF assms(1,2)] assms(3)])
qed








section \<open>Concrete inputs\<close>

lemma items_text_length_ge:
  assumes "\<forall>j. i \<le> j \<and> j < k \<longrightarrow> c \<le> length (render_item get n j)"
  shows "c * nat (k - i) \<le> length (items_text get n i k)"
  using assms
proof (induction "nat (k - i)" arbitrary: i)
  case 0
  then show ?case by simp
next
  case (Suc m)
  then have lt: "i < k" by simp
  have "m = nat (k - (i + 1))" using Suc.hyps(2) by simp
  moreover have "\<forall>j. i + 1 \<le> j \<and> j < k \<longrightarrow> c \<le> length (render_item get n j)"
    using Suc.prems by simp
  ultimately have "c * nat (k - (i + 1)) \<le> length (items_text get n (i + 1) k)"
    by (rule Suc.hyps(1))
  moreover have "c \<le> length (render_item get n i)" using Suc.prems lt by simp
  moreover have "nat (k - i) = Suc (nat (k - (i + 1)))" using lt by simp
  ultimately show ?case by (simp add: items_text_step [OF lt])
qed

lemma fmt_d_INT_MIN: "fmt_d (- 2147483648) = ''-2147483648''"
  by (simp add: fmt_d_def digits10.simps digit_char_def)

lemma sint_INT_MIN: "sint INT_MIN = - 2147483648"
  by (simp add: INT_MIN_def)

lemma long_array_text:
  "255 < length (array_header 24 @ items_text (\<lambda>i. sint (replicate 24 INT_MIN ! nat i)) 24 0 24)"
proof -
  let ?get = "\<lambda>i. sint (replicate 24 INT_MIN ! nat i)"
  have "\<forall>j. 0 \<le> j \<and> j < 24 \<longrightarrow> 11 \<le> length (render_item ?get 24 j)"
    by (simp add: render_item_def nat_less_iff sint_INT_MIN fmt_d_INT_MIN)
  from items_text_length_ge [OF this] show ?thesis by simp
qed

lemma long_indices_text:
  "255 < length (indices_header @ items_text (\<lambda>i. replicate 24 (- 2147483648) ! nat i) 24 0 24)"
proof -
  let ?get = "\<lambda>i. replicate 24 (- 2147483648 :: int) ! nat i"
  have "\<forall>j. 0 \<le> j \<and> j < 24 \<longrightarrow> 11 \<le> length (render_item ?get 24 j)"
    by (simp add: render_item_def nat_less_iff fmt_d_INT_MIN)
  from items_text_length_ge [OF this] show ?thesis by simp
qed


lemma indices_minus_example: "indices_found (find_max_init (load [- 5, - 1, - 5])) = [1]"
  by code_simp

lemma wf_load: "length xs \<le> 16 \<Longrightarrow> wf_globals (load xs)"
  by (simp add: wf_globals_def load_def MAX_ARRAY_SIZE_def)

section \<open>The properties of the specification\<close>

text \<open>
  Claim C1. For every valid input (an array of \<open>MAX_ARRAY_SIZE\<close> slots of which the first
  1 to 16 are supplied), every index that \<open>find_max_init\<close> collects lies inside the
  supplied elements and holds the value found; the value found is greater than or equal
  to every supplied element; and no supplied element exceeds it.
\<close>

theorem find_max_indices_and_bound:
  assumes "wf_globals g" "1 \<le> num_elements g" "num_elements g \<le> 16"
  shows "(\<forall>idx \<in> set (indices_found (find_max_init g)).
            0 \<le> idx \<and> nat idx < length (supplied g) \<and>
            supplied g ! nat idx = max_val_found (find_max_init g)) \<and>
         (\<forall>i < length (supplied g). sint (supplied g ! i) \<le> sint (max_val_found (find_max_init g))) \<and>
         \<not> (\<exists>x \<in> set (supplied g). sint (max_val_found (find_max_init g)) < sint x)"
proof -
  let ?arr = "input_array g" and ?n = "num_elements g"
  let ?mv = "scan_max ?arr ?n 0 INT_MIN"
  note run = find_max_init_valid [OF assms(2,3)]
  note sup = supplied_valid [OF assms]
  have a: "\<forall>idx \<in> set (hits ?arr ?mv 0 ?n).
            0 \<le> idx \<and> nat idx < length (supplied g) \<and> supplied g ! nat idx = ?mv"
  proof
    fix idx assume "idx \<in> set (hits ?arr ?mv 0 ?n)"
    then have i: "0 \<le> idx" "idx < ?n" "?arr ! nat idx = ?mv" by (simp_all add: set_hits)
    then have "nat idx < nat ?n" by simp
    with i sup show "0 \<le> idx \<and> nat idx < length (supplied g) \<and> supplied g ! nat idx = ?mv"
      by simp
  qed
  have b: "\<forall>i < length (supplied g). sint (supplied g ! i) \<le> sint ?mv"
  proof (intro allI impI)
    fix i assume "i < length (supplied g)"
    then have i: "i < nat ?n" by (simp add: sup(1))
    then have "sint (?arr ! nat (int i)) \<le> sint ?mv" by (intro scan_max_upper) simp_all
    with i show "sint (supplied g ! i) \<le> sint ?mv" by (simp add: sup(2))
  qed
  have c: "\<not> (\<exists>x \<in> set (supplied g). sint ?mv < sint x)"
  proof
    assume "\<exists>x \<in> set (supplied g). sint ?mv < sint x"
    then obtain i where "i < length (supplied g)" "sint ?mv < sint (supplied g ! i)"
      by (auto simp: in_set_conv_nth)
    with b show False by fastforce
  qed
  from a b c show ?thesis by (simp add: run)
qed

theorem find_max_indices_and_bound_witness:
  "wf_globals (load [- 5, - 1, - 5]) \<and> 1 \<le> num_elements (load [- 5, - 1, - 5]) \<and>
   num_elements (load [- 5, - 1, - 5]) \<le> 16 \<and>
   1 \<in> set (indices_found (find_max_init (load [- 5, - 1, - 5]))) \<and>
   supplied (load [- 5, - 1, - 5]) ! nat 1 = max_val_found (find_max_init (load [- 5, - 1, - 5])) \<and>
   0 < length (supplied (load [- 5, - 1, - 5])) \<and>
   sint (supplied (load [- 5, - 1, - 5]) ! 0)
     \<le> sint (max_val_found (find_max_init (load [- 5, - 1, - 5]))) \<and>
   \<not> (\<exists>x \<in> set (supplied (load [- 5, - 1, - 5])).
        sint (max_val_found (find_max_init (load [- 5, - 1, - 5]))) < sint x)"
proof -
  have h: "wf_globals (load [- 5, - 1, - 5])" "1 \<le> num_elements (load [- 5, - 1, - 5])"
    "num_elements (load [- 5, - 1, - 5]) \<le> 16"
    by (simp_all add: wf_load) (simp_all add: load_def)
  have i: "1 \<in> set (indices_found (find_max_init (load [- 5, - 1, - 5])))"
    by (simp add: indices_minus_example)
  have l: "0 < length (supplied (load [- 5, - 1, - 5]))"
    by (simp add: supplied_def load_def)
  from find_max_indices_and_bound [OF h] h i l show ?thesis by blast
qed

text \<open>
  Claim C2. For every valid input of 1 to 16 elements the collected indices are strictly
  increasing and the list is not empty: \<open>count\<close> is its length, the indices are
  rendered, and the "should not happen" line is not logged.
\<close>

theorem indices_increasing_nonempty:
  assumes "wf_globals g" "1 \<le> num_elements g" "num_elements g \<le> 16"
  shows "sorted_wrt (<) (indices_found (find_max_init g)) \<and>
         indices_found (find_max_init g) \<noteq> [] \<and>
         count_found (find_max_init g) = int (length (indices_found (find_max_init g))) \<and>
         indices_str (find_max_init g) \<noteq> None \<and>
         no_index_warning \<notin> set (log_lines (find_max_init g))"
proof -
  have "no_index_warning \<notin> set (log_lines (find_max_init g))"
    by (simp add: valid_run_log [OF assms(2,3)] no_index_warning_def hello_def max_line_def)
  then show ?thesis
    using hits_nonempty [OF assms(2), of "input_array g"]
    by (simp add: find_max_init_valid [OF assms(2,3)] sorted_hits)
qed

theorem indices_increasing_nonempty_witness:
  "wf_globals (load [5, 5, 5]) \<and> 1 \<le> num_elements (load [5, 5, 5]) \<and> num_elements (load [5, 5, 5]) \<le> 16 \<and>
   sorted_wrt (<) (indices_found (find_max_init (load [5, 5, 5]))) \<and>
   indices_found (find_max_init (load [5, 5, 5])) \<noteq> [] \<and>
   count_found (find_max_init (load [5, 5, 5])) = int (length (indices_found (find_max_init (load [5, 5, 5])))) \<and>
   indices_str (find_max_init (load [5, 5, 5])) \<noteq> None \<and>
   no_index_warning \<notin> set (log_lines (find_max_init (load [5, 5, 5])))"
proof -
  have h: "wf_globals (load [5, 5, 5])" "1 \<le> num_elements (load [5, 5, 5])" "num_elements (load [5, 5, 5]) \<le> 16"
    by (simp_all add: wf_load) (simp_all add: load_def)
  from indices_increasing_nonempty [OF h] h show ?thesis by blast
qed

text \<open>
  Claim C3. \<open>find_max_init\<close> returns \<open>-EINVAL\<close> exactly when the element count is at
  most 0 or greater than 16, and returns 0 for every count from 1 to 16.
\<close>

theorem init_exit_status:
  "(ret_code (find_max_init g) = - EINVAL \<longleftrightarrow> num_elements g \<le> 0 \<or> 16 < num_elements g) \<and>
   (1 \<le> num_elements g \<and> num_elements g \<le> 16 \<longrightarrow> ret_code (find_max_init g) = 0)"
  by (simp add: find_max_init_def Let_def MAX_ARRAY_SIZE_def EINVAL_def)

theorem init_exit_status_witness:
  "1 \<le> num_elements (load [1, 2, 3]) \<and> num_elements (load [1, 2, 3]) \<le> 16 \<and>
   ret_code (find_max_init (load [1, 2, 3])) = 0 \<and>
   num_elements (load []) \<le> 0 \<and> ret_code (find_max_init (load [])) = - EINVAL"
proof -
  have h: "1 \<le> num_elements (load [1, 2, 3])" "num_elements (load [1, 2, 3]) \<le> 16"
    "num_elements (load []) \<le> 0"
    by (simp_all add: load_def)
  from init_exit_status [of "load [1, 2, 3]"] init_exit_status [of "load []"] h
  show ?thesis by blast
qed

text \<open>
  Claim C4. The first scan starts from \<open>INT_MIN\<close>, which no value of a C int lies below;
  for every non-empty prefix of an array (arrays of \<open>INT_MIN\<close> only included) the scan
  ends with an element of that prefix whose value is the largest among them.
\<close>

theorem scan_max_is_largest:
  assumes "1 \<le> n" "n \<le> int (length arr)"
  shows "scan_max arr n 0 INT_MIN \<in> set (take (nat n) arr) \<and>
         sint (scan_max arr n 0 INT_MIN) = Max (sint ` set (take (nat n) arr)) \<and>
         (\<forall>x :: c_int. sint INT_MIN \<le> sint x)"
proof -
  let ?mv = "scan_max arr n 0 INT_MIN"
  let ?xs = "take (nat n) arr"
  have len: "length ?xs = nat n" using assms by simp
  from scan_max_is_element [OF assms(1), of arr] obtain j where
    j: "0 \<le> j" "j < n" "?mv = arr ! nat j" by blast
  then have jn: "nat j < nat n" by simp
  then have "?xs ! nat j = arr ! nat j" by simp
  moreover have "?xs ! nat j \<in> set ?xs" using jn len by (intro nth_mem) simp
  ultimately have mem: "?mv \<in> set ?xs" using j(3) by simp
  have ub: "y \<le> sint ?mv" if "y \<in> sint ` set ?xs" for y
  proof -
    from that obtain x where x: "x \<in> set ?xs" "y = sint x" by blast
    from x(1) obtain i where i: "i < length ?xs" "?xs ! i = x"
      unfolding in_set_conv_nth by blast
    from i(1) len have lt: "i < nat n" by simp
    then have "?xs ! i = arr ! i" by simp
    moreover have "sint (arr ! nat (int i)) \<le> sint ?mv"
      using lt by (intro scan_max_upper) simp_all
    ultimately show ?thesis using i(2) x(2) by simp
  qed
  have "Max (sint ` set ?xs) = sint ?mv"
  proof (rule Max_eqI)
    show "finite (sint ` set ?xs)" by simp
    show "\<And>y. y \<in> sint ` set ?xs \<Longrightarrow> y \<le> sint ?mv" by (rule ub)
    show "sint ?mv \<in> sint ` set ?xs" using mem by (rule imageI)
  qed
  with mem show ?thesis by (simp add: sint_INT_MIN_le)
qed

theorem scan_max_is_largest_witness:
  "(1 :: int) \<le> 2 \<and> 2 \<le> int (length [INT_MIN, INT_MIN]) \<and>
   scan_max [INT_MIN, INT_MIN] 2 0 INT_MIN \<in> set (take (nat 2) [INT_MIN, INT_MIN]) \<and>
   sint (scan_max [INT_MIN, INT_MIN] 2 0 INT_MIN) = Max (sint ` set (take (nat 2) [INT_MIN, INT_MIN]))"
proof -
  have h: "(1 :: int) \<le> 2" "2 \<le> int (length [INT_MIN, INT_MIN])" by simp_all
  from scan_max_is_largest [OF h] h show ?thesis by blast
qed

text \<open>
  Claim C5. The input 1,2,3 gives the value 3 at index 2; the input 5,5,5 gives the value 5
  at the indices 0, 1, 2; the input -5,-1,-5 gives the value -1 at index 1.
\<close>

theorem find_max_examples:
  "sint (max_val_found (find_max_init (load [1, 2, 3]))) = 3 \<and>
   indices_found (find_max_init (load [1, 2, 3])) = [2] \<and>
   sint (max_val_found (find_max_init (load [5, 5, 5]))) = 5 \<and>
   indices_found (find_max_init (load [5, 5, 5])) = [0, 1, 2] \<and>
   sint (max_val_found (find_max_init (load [- 5, - 1, - 5]))) = - 1 \<and>
   indices_found (find_max_init (load [- 5, - 1, - 5])) = [1]"
  by code_simp




text \<open>
  Claim C7. Neither rendering block stores a byte outside its 256-byte buffer. This
  holds for every run of \<open>find_max_init\<close>, and for the blocks taken alone on any element
  count that is a C int: the text kept, with its terminating NUL, occupies at most 256
  bytes; and whenever the header and the elements alone exceed 255 characters, the
  truncation warning is logged and the text kept is shorter than the complete
  rendering.
\<close>

theorem rendering_stays_within_buffer:
  "(\<forall>ra. array_str (find_max_init g) = Some ra \<longrightarrow> \<not> overrun ra \<and> length (chars ra) + 1 \<le> 256) \<and>
   (\<forall>ri. indices_str (find_max_init g) = Some ri \<longrightarrow> \<not> overrun ri \<and> length (chars ri) + 1 \<le> 256) \<and>
   (c_int_range n \<longrightarrow>
      \<not> overrun (render_array arr n) \<and> length (chars (render_array arr n)) + 1 \<le> 256 \<and>
      (255 < length (array_header n @ items_text (\<lambda>i. sint (arr ! nat i)) n 0 n) \<longrightarrow>
         truncation_warning array_warning \<in> set (logged (render_array arr n)) \<and>
         length (chars (render_array arr n)) < length (array_text arr n))) \<and>
   ((\<forall>x \<in> set idxs. c_int_range x) \<and> cnt \<le> int (length idxs) \<longrightarrow>
      \<not> overrun (render_indices idxs cnt) \<and> length (chars (render_indices idxs cnt)) + 1 \<le> 256 \<and>
      (255 < length (indices_header @ items_text (\<lambda>i. idxs ! nat i) cnt 0 cnt) \<longrightarrow>
         truncation_warning indices_warning \<in> set (logged (render_indices idxs cnt)) \<and>
         length (chars (render_indices idxs cnt)) < length (indices_text idxs cnt)))"
proof -
  have top: "(\<forall>ra. array_str (find_max_init g) = Some ra \<longrightarrow> \<not> overrun ra \<and> length (chars ra) + 1 \<le> 256) \<and>
   (\<forall>ri. indices_str (find_max_init g) = Some ri \<longrightarrow> \<not> overrun ri \<and> length (chars ri) + 1 \<le> 256)"
  proof (cases "1 \<le> num_elements g \<and> num_elements g \<le> 16")
    case False
    then show ?thesis by (auto simp: find_max_init_def Let_def MAX_ARRAY_SIZE_def)
  next
    case True
    then have v: "1 \<le> num_elements g" "num_elements g \<le> 16" by simp_all
    let ?arr = "input_array g" and ?n = "num_elements g"
    let ?idxs = "hits ?arr (scan_max ?arr ?n 0 INT_MIN) 0 ?n"
    have "c_int_range ?n" using v by (simp add: c_int_range_def)
    note ra = render_array_safe [OF this, of ?arr]
    have "\<forall>x \<in> set ?idxs. c_int_range x"
      using hits_small(1) [OF v(2), of ?arr "scan_max ?arr ?n 0 INT_MIN"]
      by (fastforce simp: c_int_range_def)
    note ri = render_indices_safe [OF this order_refl]
    from ra ri show ?thesis by (simp add: find_max_init_valid [OF v])
  qed
  have arr: "c_int_range n \<longrightarrow>
      \<not> overrun (render_array arr n) \<and> length (chars (render_array arr n)) + 1 \<le> 256 \<and>
      (255 < length (array_header n @ items_text (\<lambda>i. sint (arr ! nat i)) n 0 n) \<longrightarrow>
         truncation_warning array_warning \<in> set (logged (render_array arr n)) \<and>
         length (chars (render_array arr n)) < length (array_text arr n))"
  proof (intro impI conjI)
    assume r: "c_int_range n"
    show "\<not> overrun (render_array arr n)" by (rule render_array_safe(1) [OF r])
    show "length (chars (render_array arr n)) + 1 \<le> 256"
      using render_array_safe(2) [OF r, of arr] by simp
    assume big: "255 < length (array_header n @ items_text (\<lambda>i. sint (arr ! nat i)) n 0 n)"
    from render_array_unfit [OF r big] show
      "truncation_warning array_warning \<in> set (logged (render_array arr n))" by auto
    show "length (chars (render_array arr n)) < length (array_text arr n)"
      using render_array_safe(2) [OF r, of arr] big
      by (simp add: array_text_def complete_text_def)
  qed
  have idx: "(\<forall>x \<in> set idxs. c_int_range x) \<and> cnt \<le> int (length idxs) \<longrightarrow>
      \<not> overrun (render_indices idxs cnt) \<and> length (chars (render_indices idxs cnt)) + 1 \<le> 256 \<and>
      (255 < length (indices_header @ items_text (\<lambda>i. idxs ! nat i) cnt 0 cnt) \<longrightarrow>
         truncation_warning indices_warning \<in> set (logged (render_indices idxs cnt)) \<and>
         length (chars (render_indices idxs cnt)) < length (indices_text idxs cnt))"
  proof (intro impI conjI)
    assume "(\<forall>x \<in> set idxs. c_int_range x) \<and> cnt \<le> int (length idxs)"
    then have r: "\<forall>x \<in> set idxs. c_int_range x" "cnt \<le> int (length idxs)" by simp_all
    show "\<not> overrun (render_indices idxs cnt)" by (rule render_indices_safe(1) [OF r])
    show "length (chars (render_indices idxs cnt)) + 1 \<le> 256"
      using render_indices_safe(2) [OF r] by simp
    assume big: "255 < length (indices_header @ items_text (\<lambda>i. idxs ! nat i) cnt 0 cnt)"
    from render_indices_unfit [OF r big] show
      "truncation_warning indices_warning \<in> set (logged (render_indices idxs cnt))" by auto
    show "length (chars (render_indices idxs cnt)) < length (indices_text idxs cnt)"
      using render_indices_safe(2) [OF r] big
      by (simp add: indices_text_def complete_text_def)
  qed
  from top arr idx show ?thesis by blast
qed

theorem rendering_stays_within_buffer_witness:
  "(\<exists>ra. array_str (find_max_init (load [5, 5, 5])) = Some ra \<and>
      \<not> overrun ra \<and> length (chars ra) + 1 \<le> 256) \<and>
   (\<exists>ri. indices_str (find_max_init (load [5, 5, 5])) = Some ri \<and>
      \<not> overrun ri \<and> length (chars ri) + 1 \<le> 256) \<and>
   c_int_range 24 \<and>
   255 < length (array_header 24 @ items_text (\<lambda>i. sint (replicate 24 INT_MIN ! nat i)) 24 0 24) \<and>
   \<not> overrun (render_array (replicate 24 INT_MIN) 24) \<and>
   length (chars (render_array (replicate 24 INT_MIN) 24)) + 1 \<le> 256 \<and>
   truncation_warning array_warning \<in> set (logged (render_array (replicate 24 INT_MIN) 24)) \<and>
   length (chars (render_array (replicate 24 INT_MIN) 24))
     < length (array_text (replicate 24 INT_MIN) 24) \<and>
   c_int_range (- 2147483648) \<and>
   24 \<le> int (length (replicate 24 (- 2147483648 :: int))) \<and>
   255 < length (indices_header @ items_text (\<lambda>i. replicate 24 (- 2147483648) ! nat i) 24 0 24) \<and>
   \<not> overrun (render_indices (replicate 24 (- 2147483648)) 24) \<and>
   truncation_warning indices_warning
     \<in> set (logged (render_indices (replicate 24 (- 2147483648)) 24))"
proof -
  have r: "c_int_range 24" "\<forall>x \<in> set (replicate 24 (- 2147483648)). c_int_range x"
    "24 \<le> int (length (replicate 24 (- 2147483648 :: int)))"
    by (simp_all add: c_int_range_def)
  have v: "1 \<le> num_elements (load [5, 5, 5])" "num_elements (load [5, 5, 5]) \<le> 16"
    by (simp_all add: load_def)
  have s: "\<exists>ra. array_str (find_max_init (load [5, 5, 5])) = Some ra"
    "\<exists>ri. indices_str (find_max_init (load [5, 5, 5])) = Some ri"
    by (simp_all add: find_max_init_valid [OF v])
  note t = rendering_stays_within_buffer [where g = "load [5, 5, 5]" and n = 24
      and arr = "replicate 24 INT_MIN" and idxs = "replicate 24 (- 2147483648)" and cnt = 24]
  from t s have a:
    "\<exists>ra. array_str (find_max_init (load [5, 5, 5])) = Some ra \<and>
      \<not> overrun ra \<and> length (chars ra) + 1 \<le> 256"
    "\<exists>ri. indices_str (find_max_init (load [5, 5, 5])) = Some ri \<and>
      \<not> overrun ri \<and> length (chars ri) + 1 \<le> 256"
    by blast+
  from t r(1) long_array_text have b:
    "\<not> overrun (render_array (replicate 24 INT_MIN) 24)"
    "length (chars (render_array (replicate 24 INT_MIN) 24)) + 1 \<le> 256"
    "truncation_warning array_warning \<in> set (logged (render_array (replicate 24 INT_MIN) 24))"
    "length (chars (render_array (replicate 24 INT_MIN) 24))
       < length (array_text (replicate 24 INT_MIN) 24)"
    by blast+
  from t r(2,3) long_indices_text have c:
    "\<not> overrun (render_indices (replicate 24 (- 2147483648)) 24)"
    "truncation_warning indices_warning
       \<in> set (logged (render_indices (replicate 24 (- 2147483648)) 24))"
    by blast+
  have "c_int_range (- 2147483648)" by (simp add: c_int_range_def)
  with a r(1,3) long_array_text b long_indices_text c show ?thesis by blast
qed

text \<open>
  Claim C8. \<open>find_max_init\<close> never assigns to \<open>input_array\<close> or \<open>num_elements\<close>: after
  the run, on every path, the globals are the ones supplied at load time.
\<close>

theorem globals_unchanged:
  "globals_after (find_max_init g) = g \<and>
   input_array (globals_after (find_max_init g)) = input_array g \<and>
   num_elements (globals_after (find_max_init g)) = num_elements g"
  by (simp add: find_max_init_def Let_def)

text \<open>
  Claim C9. For every valid input of 1 to 16 elements the number of collected indices
  is at most the 16 slots of \<open>max_indices\<close>, and the storage warning is not logged.
\<close>

theorem index_storage_never_overflows:
  assumes "wf_globals g" "1 \<le> num_elements g" "num_elements g \<le> 16"
  shows "count_found (find_max_init g) \<le> MAX_ARRAY_SIZE \<and>
         length (indices_found (find_max_init g)) \<le> 16 \<and>
         storage_warning \<notin> set (log_lines (find_max_init g))"
proof -
  have "storage_warning \<notin> set (log_lines (find_max_init g))"
    by (simp add: valid_run_log [OF assms(2,3)] storage_warning_def hello_def max_line_def)
  then show ?thesis
    using hits_small(2) [OF assms(3), of "input_array g"]
    by (simp add: find_max_init_valid [OF assms(2,3)] MAX_ARRAY_SIZE_def)
qed

theorem index_storage_never_overflows_witness:
  "wf_globals (load [5, 5, 5]) \<and> 1 \<le> num_elements (load [5, 5, 5]) \<and> num_elements (load [5, 5, 5]) \<le> 16 \<and>
   count_found (find_max_init (load [5, 5, 5])) \<le> MAX_ARRAY_SIZE \<and>
   length (indices_found (find_max_init (load [5, 5, 5]))) \<le> 16 \<and>
   storage_warning \<notin> set (log_lines (find_max_init (load [5, 5, 5])))"
proof -
  have h: "wf_globals (load [5, 5, 5])" "1 \<le> num_elements (load [5, 5, 5])" "num_elements (load [5, 5, 5]) \<le> 16"
    by (simp_all add: wf_load) (simp_all add: load_def)
  from index_storage_never_overflows [OF h] h show ?thesis by blast
qed

text \<open>
  Claim C10. For every valid input of 1 to 16 elements both buffers hold the complete
  rendering (header, all elements, closing bracket), each takes fewer than 240 bytes
  with its terminating NUL, and neither truncation warning is logged.
\<close>

theorem rendered_text_fits:
  assumes "wf_globals g" "1 \<le> num_elements g" "num_elements g \<le> 16"
  shows "\<exists>ra ri. array_str (find_max_init g) = Some ra \<and> indices_str (find_max_init g) = Some ri \<and>
           chars ra = array_text (input_array g) (num_elements g) \<and> length (chars ra) + 1 < 240 \<and>
           chars ri = indices_text (indices_found (find_max_init g)) (count_found (find_max_init g)) \<and>
           length (chars ri) + 1 < 240 \<and>
           truncation_warning array_warning \<notin> set (log_lines (find_max_init g)) \<and>
           truncation_warning indices_warning \<notin> set (log_lines (find_max_init g))"
proof -
  let ?arr = "input_array g" and ?n = "num_elements g"
  let ?idxs = "hits ?arr (scan_max ?arr ?n 0 INT_MIN) 0 ?n"
  note ra = render_array_valid [OF assms(2,3), of ?arr]
  note ri = render_indices_valid [OF hits_small [OF assms(3)] refl, of ?arr "scan_max ?arr ?n 0 INT_MIN"]
  have w: "truncation_warning array_warning \<notin> set (log_lines (find_max_init g))"
    "truncation_warning indices_warning \<notin> set (log_lines (find_max_init g))"
    by (simp_all add: valid_run_log [OF assms(2,3)] truncation_warning_def hello_def max_line_def)
  show ?thesis using w ra(1,4) ri(1,4)
    by (simp add: find_max_init_valid [OF assms(2,3)])
qed

theorem rendered_text_fits_witness:
  "wf_globals (load [5, 5, 5]) \<and> 1 \<le> num_elements (load [5, 5, 5]) \<and> num_elements (load [5, 5, 5]) \<le> 16 \<and>
   (\<exists>ra ri. array_str (find_max_init (load [5, 5, 5])) = Some ra \<and> indices_str (find_max_init (load [5, 5, 5])) = Some ri \<and>
      chars ra = array_text (input_array (load [5, 5, 5])) (num_elements (load [5, 5, 5])) \<and> length (chars ra) + 1 < 240 \<and>
      chars ri = indices_text (indices_found (find_max_init (load [5, 5, 5]))) (count_found (find_max_init (load [5, 5, 5]))) \<and>
      length (chars ri) + 1 < 240 \<and>
      truncation_warning array_warning \<notin> set (log_lines (find_max_init (load [5, 5, 5]))) \<and>
      truncation_warning indices_warning \<notin> set (log_lines (find_max_init (load [5, 5, 5]))))"
proof -
  have h: "wf_globals (load [5, 5, 5])" "1 \<le> num_elements (load [5, 5, 5])" "num_elements (load [5, 5, 5]) \<le> 16"
    by (simp_all add: wf_load) (simp_all add: load_def)
  from rendered_text_fits [OF h] h show ?thesis by blast
qed

end
